theory Spec2Isabelle
  imports Complex_Main "HOL-Library.Word" "HOL-Library.Multiset"
begin

section \<open>The configuration header \<^verbatim>\<open>components/FlashDB/inc/fdb_cfg.h\<close>\<close>

text \<open>
  The header is a list of preprocessor definitions. A macro that is only tested with
  \<^verbatim>\<open>#ifdef\<close> is modelled by the truth value "is defined"; a macro with a
  replacement list is modelled by the value of that list. The integer literals have the C
  type \<^verbatim>\<open>int\<close>, which is 32 bits wide on the ESP32, so the values are 32-bit
  words read as two's complement with \<^const>\<open>sint\<close>.
\<close>

type_synonym c_int = "32 word"

text \<open>Line 19: \<^verbatim>\<open>#define FDB_USING_KVDB\<close>.\<close>

definition FDB_USING_KVDB :: bool where
  "FDB_USING_KVDB = True"

text \<open>
  Lines 21 to 24: inside \<^verbatim>\<open>#ifdef FDB_USING_KVDB\<close> the only line is the comment
  \<^verbatim>\<open>/* #define FDB_KV_AUTO_UPDATE */\<close>, so nothing defines the macro, whether
  the block is entered or not.
\<close>

definition FDB_KV_AUTO_UPDATE :: bool where
  "FDB_KV_AUTO_UPDATE = (if FDB_USING_KVDB then False else False)"

text \<open>Line 27: \<^verbatim>\<open>#define FDB_USING_TSDB\<close>.\<close>

definition FDB_USING_TSDB :: bool where
  "FDB_USING_TSDB = True"

text \<open>Line 31: \<^verbatim>\<open>#define FDB_USING_FAL_MODE\<close>.\<close>

definition FDB_USING_FAL_MODE :: bool where
  "FDB_USING_FAL_MODE = True"

text \<open>Line 37: \<^verbatim>\<open>#define FDB_WRITE_GRAN 1\<close>, the write granularity in bits.\<close>

definition FDB_WRITE_GRAN :: c_int where
  "FDB_WRITE_GRAN = 1"

text \<open>Line 42: \<^verbatim>\<open>// #define FDB_USING_TIMESTAMP_64BIT\<close> is a comment.\<close>

definition FDB_USING_TIMESTAMP_64BIT :: bool where
  "FDB_USING_TIMESTAMP_64BIT = False"

text \<open>Lines 47 and 48: the sizes of the two logical partitions, in bytes.\<close>

definition FDB_KVDB1_SIZE :: c_int where
  "FDB_KVDB1_SIZE = 512 * 1024"

definition FDB_TSDB1_SIZE :: c_int where
  "FDB_TSDB1_SIZE = 512 * 1024"

text \<open>Line 52: \<^verbatim>\<open>#define FDB_TOTAL_PARTITION_SIZE (FDB_KVDB1_SIZE + FDB_TSDB1_SIZE)\<close>.\<close>

definition FDB_TOTAL_PARTITION_SIZE :: c_int where
  "FDB_TOTAL_PARTITION_SIZE = FDB_KVDB1_SIZE + FDB_TSDB1_SIZE"

text \<open>Line 63: \<^verbatim>\<open>/* #define FDB_BIG_ENDIAN */\<close> is a comment.\<close>

definition FDB_BIG_ENDIAN :: bool where
  "FDB_BIG_ENDIAN = False"

text \<open>Line 72: \<^verbatim>\<open>#define FDB_DEBUG_ENABLE\<close>.\<close>

definition FDB_DEBUG_ENABLE :: bool where
  "FDB_DEBUG_ENABLE = True"

subsection \<open>The checks the engine makes of the configuration at startup\<close>

datatype fdb_error =
  IOError | CorruptRecord | NoSpace | OutOfOrder | NotFound | VersionMismatch | ConfigError

text \<open>
  Modelled from the spec: the check of the partition sizing invariant at initialization
  (sections 3 and 7), which is made by code outside this header: a configuration whose
  partition sizes add up to more than the physical region fails with \<open>ConfigError\<close>,
  before any I/O. The header states the same requirement in its comments (line 46: "Ensure
  their sum does not exceed the size of the physical flashdb partition"; line 51: "This must
  be equal to or greater than the sum of FDB_KVDB1_SIZE and FDB_TSDB1_SIZE"). The sizes are
  compared as the integers the C values stand for.
\<close>

definition check_partition_sizes :: "c_int list \<Rightarrow> c_int \<Rightarrow> fdb_error option" where
  "check_partition_sizes sizes region =
     (if sum_list (map sint sizes) \<le> sint region then None else Some ConfigError)"

text \<open>
  Modelled from the spec: what the engine does at startup when the namespace version stored
  in the database differs from the version compiled into the firmware (section 4.3,
  "Version-tagged reset"). The header's line 22 names the one configurable behaviour:
  "Auto update KV to latest default when current KVDB version number is changed".
\<close>

datatype version_policy = WipeAndReinit | LeaveAsIs

definition version_mismatch_policy :: "bool \<Rightarrow> version_policy" where
  "version_mismatch_policy auto_update = (if auto_update then WipeAndReinit else LeaveAsIs)"

text \<open>The persisted namespace: its version marker and the key-value pairs it holds.\<close>

record 'v kv_namespace =
  ns_version :: "32 word"
  ns_entries :: "(string \<times> 'v) list"

definition kvdb_check_version ::
  "bool \<Rightarrow> 32 word \<Rightarrow> (string \<times> 'v) list \<Rightarrow> 'v kv_namespace \<Rightarrow> 'v kv_namespace" where
  "kvdb_check_version auto_update expected_version defaults ns =
     (if ns_version ns = expected_version then ns
      else (case version_mismatch_policy auto_update of
              WipeAndReinit \<Rightarrow> \<lparr> ns_version = expected_version, ns_entries = defaults \<rparr>
            | LeaveAsIs \<Rightarrow> ns))"

section \<open>The key-value engine and its sector allocator\<close>

text \<open>
  The header configures a storage engine that is not part of it. The definitions of this
  section are modelled from the spec (sections 3, 4.1 and 4.3): the logical content of a
  store, as sectors holding records, and the operations on it. An operation is modelled
  from its start to its end, so the intermediate \<open>pre-write\<close> status of a record being
  written is not a state between operations, and the Flash Access Shim is taken to succeed
  (no \<open>IOError\<close>).
\<close>

type_synonym byte = "8 word"

text \<open>
  Modelled from the spec: the status of a record, "unused -> pre-write -> write-ok ->
  (deleted)", and the state of a sector, "empty, using, full, dirty, gc" (section 3).
\<close>

datatype rec_status = Unused | PreWrite | WriteOk | Deleted

datatype sector_state = Empty | Using | Full | Dirty | GC

text \<open>
  Modelled from the spec: a record is a header (status, length, CRC), a key and the value
  bytes (section 3). The model keeps the status, the number of bytes the record occupies
  on flash, the key and the value; the CRC belongs to the byte encoding, which the spec
  leaves open.
\<close>

record 'k flash_record =
  rec_status :: rec_status
  rec_len :: nat
  rec_key :: 'k
  rec_value :: "byte list"

text \<open>
  Modelled from the spec: a sector has an index (its position in the store), a state and a
  write cursor (section 3). The cursor is the number of bytes its records occupy.
\<close>

record 'k sector =
  sec_state :: sector_state
  sec_records :: "'k flash_record list"

text \<open>
  Modelled from the spec: a store is a partition divided into sectors of one fixed size
  (section 3). The size of a record header is a parameter of the store.
\<close>

record 'k store =
  st_sector_size :: nat
  st_header_size :: nat
  st_sectors :: "'k sector list"

text \<open>
  Modelled from the spec: "a record is considered valid only if status == write-ok"
  (section 3); superseded and tombstoned records carry the status \<open>deleted\<close> and are
  garbage.
\<close>

definition live :: "'k flash_record \<Rightarrow> bool" where
  "live r = (rec_status r = WriteOk)"

definition write_cursor :: "'k sector \<Rightarrow> nat" where
  "write_cursor sec = sum_list (map rec_len (sec_records sec))"

definition live_bytes :: "'k sector \<Rightarrow> nat" where
  "live_bytes sec = sum_list (map rec_len (filter live (sec_records sec)))"

definition garbage_bytes :: "'k sector \<Rightarrow> nat" where
  "garbage_bytes sec = sum_list (map rec_len (filter (\<lambda>r. \<not> live r) (sec_records sec)))"

text \<open>
  Modelled from the spec: "the ratio of superseded/tombstoned bytes" of a sector
  (section 4.1). The spec does not say what the ratio is taken over; here it is the
  garbage bytes over the sector size, so a sector with more garbage bytes ranks higher
  than one that is all garbage but holds fewer bytes.
\<close>

definition garbage_ratio :: "nat \<Rightarrow> 'k sector \<Rightarrow> rat" where
  "garbage_ratio sector_size sec = of_nat (garbage_bytes sec) / of_nat sector_size"

text \<open>Modelled from the spec: a sector "can fit" a record of \<open>n\<close> bytes (section 4.1).\<close>

definition fits :: "nat \<Rightarrow> 'k sector \<Rightarrow> nat \<Rightarrow> bool" where
  "fits sector_size sec n = (write_cursor sec + n \<le> sector_size)"

definition sectors_in_state :: "sector_state \<Rightarrow> 'k store \<Rightarrow> nat list" where
  "sectors_in_state st s =
     filter (\<lambda>i. sec_state (st_sectors s ! i) = st) [0..<length (st_sectors s)]"

text \<open>
  Modelled from the spec: "\<open>current_write_head(store) -> (sector, offset)\<close> gives the next
  write position" (section 4.1): the sector in state \<open>using\<close> and its write cursor.
\<close>

definition current_write_head :: "'k store \<Rightarrow> (nat \<times> nat) option" where
  "current_write_head s =
     (case sectors_in_state Using s of
        [] \<Rightarrow> None
      | i # _ \<Rightarrow> Some (i, write_cursor (st_sectors s ! i)))"

text \<open>
  Modelled from the spec: "space is managed as a circular log over sectors ... the next
  empty sector becomes active" (section 4.1): the first empty sector after sector \<open>i\<close>,
  wrapping around at the end of the store.
\<close>

definition next_empty :: "nat \<Rightarrow> 'k store \<Rightarrow> nat option" where
  "next_empty i s =
     find (\<lambda>j. sec_state (st_sectors s ! j) = Empty)
       ([Suc i..<length (st_sectors s)] @ [0..<min (Suc i) (length (st_sectors s))])"

text \<open>
  Modelled from the spec: "pick the full sector with the highest ratio of
  superseded/tombstoned bytes ... Tie-break: lowest sector index among equal garbage
  ratios" (section 4.1). The candidates are scanned by increasing index; a later candidate
  replaces the best one so far only when its ratio is strictly higher.
\<close>

fun select_victim :: "(nat \<Rightarrow> rat) \<Rightarrow> nat list \<Rightarrow> nat option \<Rightarrow> nat option" where
  "select_victim ratio [] best = best"
| "select_victim ratio (i # rest) best =
     select_victim ratio rest
       (case best of
          None \<Rightarrow> Some i
        | Some b \<Rightarrow> if ratio b < ratio i then Some i else Some b)"

definition gc_select :: "'k store \<Rightarrow> nat option" where
  "gc_select s =
     select_victim (\<lambda>i. garbage_ratio (st_sector_size s) (st_sectors s ! i))
       (sectors_in_state Full s) None"

text \<open>Modelled from the spec: the state transitions of a sector and the write of records
  at its cursor (sections 3 and 4.1).\<close>

definition set_state :: "nat \<Rightarrow> sector_state \<Rightarrow> 'k store \<Rightarrow> 'k store" where
  "set_state i st s = s\<lparr>st_sectors := (st_sectors s)[i := (st_sectors s ! i)\<lparr>sec_state := st\<rparr>]\<rparr>"

definition append_records :: "nat \<Rightarrow> 'k flash_record list \<Rightarrow> 'k store \<Rightarrow> 'k store" where
  "append_records i rs s =
     s\<lparr>st_sectors := (st_sectors s)[i := (st_sectors s ! i)
        \<lparr>sec_records := sec_records (st_sectors s ! i) @ rs\<rparr>]\<rparr>"

definition erase_sector :: "nat \<Rightarrow> 'k store \<Rightarrow> 'k store" where
  "erase_sector i s =
     s\<lparr>st_sectors := (st_sectors s)[i := \<lparr>sec_state = Empty, sec_records = []\<rparr>]\<rparr>"

definition mark_full :: "nat \<Rightarrow> 'k store \<Rightarrow> 'k store" where
  "mark_full i s = set_state i Full s"

text \<open>
  Modelled from the spec: "copy its live records forward into the active sector, mark it
  dirty, erase it, return it to empty" (section 4.1), for the victim and the active sector
  \<open>head\<close>.
\<close>

definition reclaim :: "nat \<Rightarrow> nat \<Rightarrow> 'k store \<Rightarrow> 'k store" where
  "reclaim victim head s =
     erase_sector victim
       (set_state victim Dirty
         (append_records head (filter live (sec_records (st_sectors s ! victim))) s))"

text \<open>
  Modelled from the spec: one synchronous pass of garbage collection (section 4.1). The
  spec names one pick and does not say whether a second sector is tried; here "the active
  sector" that the live records are copied into is the current write head, and the pass
  yields no space when no sector is full, or when the live records of the one selected
  sector do not fit behind the cursor of the head, even if another full sector could be
  reclaimed. The store is then left as it is.
\<close>

definition garbage_collect :: "nat \<Rightarrow> 'k store \<Rightarrow> 'k store option" where
  "garbage_collect head s =
     (case gc_select s of
        None \<Rightarrow> None
      | Some victim \<Rightarrow>
          if fits (st_sector_size s) (st_sectors s ! head) (live_bytes (st_sectors s ! victim))
          then Some (reclaim victim head s)
          else None)"

text \<open>
  Modelled from the spec: "when the active sector cannot fit a new record, it is marked
  full and the next empty sector becomes active" (section 4.1).
\<close>

definition advance_head :: "nat \<Rightarrow> nat \<Rightarrow> 'k store \<Rightarrow> 'k store" where
  "advance_head i j s = set_state j Using (mark_full i s)"

definition enter_sector :: "nat \<Rightarrow> nat \<Rightarrow> 'k store \<Rightarrow> (fdb_error + nat) \<times> 'k store" where
  "enter_sector j n s =
     (if fits (st_sector_size s) (st_sectors s ! j) n then (Inr j, s) else (Inl NoSpace, s))"

text \<open>
  Modelled from the spec: "\<open>allocate(store) -> sector_handle\<close> returns a sector with free
  space, creating/triggering erase of a reclaimed sector when none is empty", and the
  algorithm of section 4.1: write at the head if the record fits; otherwise move the head
  to the next empty sector; if no sector is empty, collect garbage first; "if reclamation
  yields no space (store genuinely full), the write operation fails with a NoSpace
  condition". The result is the index of the sector to write to, or the error, and the
  store after the sector transitions.
\<close>

definition allocate :: "nat \<Rightarrow> 'k store \<Rightarrow> (fdb_error + nat) \<times> 'k store" where
  "allocate n s =
     (case current_write_head s of
        None \<Rightarrow>
          (case sectors_in_state Empty s of
             [] \<Rightarrow> (Inl NoSpace, s)
           | j # _ \<Rightarrow> enter_sector j n (set_state j Using s))
      | Some (i, cursor) \<Rightarrow>
          if fits (st_sector_size s) (st_sectors s ! i) n then (Inr i, s)
          else
            (case next_empty i s of
               Some j \<Rightarrow> enter_sector j n (advance_head i j s)
             | None \<Rightarrow>
                 (case garbage_collect i s of
                    None \<Rightarrow> (Inl NoSpace, s)
                  | Some s' \<Rightarrow>
                      (case next_empty i s' of
                         None \<Rightarrow> (Inl NoSpace, s')
                       | Some j \<Rightarrow> enter_sector j n (advance_head i j s')))))"

text \<open>Modelled from the spec: the write operation, allocation followed by the write of
  the record at the cursor of the allocated sector.\<close>

definition write_record :: "'k flash_record \<Rightarrow> 'k store \<Rightarrow> (fdb_error + nat) \<times> 'k store" where
  "write_record r s =
     (case allocate (rec_len r) s of
        (Inl e, s') \<Rightarrow> (Inl e, s')
      | (Inr i, s') \<Rightarrow> (Inr i, append_records i [r] s'))"

definition all_records :: "'k store \<Rightarrow> 'k flash_record list" where
  "all_records s = concat (map sec_records (st_sectors s))"

text \<open>
  Modelled from the spec: "marks any prior record for key as superseded (a reference, not a
  physical delete)" (section 4.3): the status of every valid record of the key becomes
  \<open>deleted\<close>. After a \<open>set\<close> the record just written, the last one of its sector, is the
  one record that is not prior.
\<close>

definition supersede :: "'k \<Rightarrow> 'k flash_record list \<Rightarrow> 'k flash_record list" where
  "supersede k rs =
     map (\<lambda>r. if rec_key r = k \<and> rec_status r = WriteOk then r\<lparr>rec_status := Deleted\<rparr> else r) rs"

definition supersede_sector :: "'k \<Rightarrow> 'k sector \<Rightarrow> 'k sector" where
  "supersede_sector k sec = sec\<lparr>sec_records := supersede k (sec_records sec)\<rparr>"

definition supersede_older :: "'k \<Rightarrow> 'k sector \<Rightarrow> 'k sector" where
  "supersede_older k sec =
     (case rev (sec_records sec) of
        [] \<Rightarrow> sec
      | newest # older \<Rightarrow> sec\<lparr>sec_records := supersede k (rev older) @ [newest]\<rparr>)"

definition supersede_prior :: "'k \<Rightarrow> nat \<Rightarrow> 'k store \<Rightarrow> 'k store" where
  "supersede_prior k i s =
     s\<lparr>st_sectors := (map (supersede_sector k) (st_sectors s))
                        [i := supersede_older k (st_sectors s ! i)]\<rparr>"

definition supersede_all :: "'k \<Rightarrow> 'k store \<Rightarrow> 'k store" where
  "supersede_all k s =
     s\<lparr>st_sectors := map (supersede_sector k) (st_sectors s)\<rparr>"

text \<open>
  Modelled from the spec: the KVDB engine "maps string keys to variable-length values" and
  has configured default values (sections 2 and 4.3).
\<close>

record kvdb =
  kv_store :: "string store"
  kv_defaults :: "(string \<times> byte list) list"

text \<open>The valid records of a key, in the order of the scan (by sector, then by offset).\<close>

definition current_records :: "string \<Rightarrow> kvdb \<Rightarrow> string flash_record list" where
  "current_records k db = filter (\<lambda>r. rec_key r = k \<and> live r) (all_records (kv_store db))"

text \<open>
  Modelled from the spec: "\<open>get(key) -> value | default | NotFound\<close>: scans records
  honoring most recent wins; if a configured default value exists for the key and no record
  is found, returns it instead of NotFound" (section 4.3). The most recent record is the
  last valid one of the scan.
\<close>

definition kv_get :: "string \<Rightarrow> kvdb \<Rightarrow> fdb_error + byte list" where
  "kv_get k db =
     (case rev (current_records k db) of
        newest # _ \<Rightarrow> Inr (rec_value newest)
      | [] \<Rightarrow> (case map_of (kv_defaults db) k of Some d \<Rightarrow> Inr d | None \<Rightarrow> Inl NotFound))"

text \<open>
  Modelled from the spec: "\<open>set(key, value)\<close>: allocates space for a new record (status
  pre-write -> write-ok), then lazily marks any prior record for key as superseded. Returns
  success or NoSpace/IOError" (section 4.3). The result is the error, if any, and the
  database after the operation.
\<close>

definition kv_set :: "string \<Rightarrow> byte list \<Rightarrow> kvdb \<Rightarrow> fdb_error option \<times> kvdb" where
  "kv_set k v db =
     (let s = kv_store db;
          r = \<lparr>rec_status = WriteOk, rec_len = st_header_size s + length k + length v,
               rec_key = k, rec_value = v\<rparr>
      in case write_record r s of
           (Inl e, s') \<Rightarrow> (Some e, db\<lparr>kv_store := s'\<rparr>)
         | (Inr i, s') \<Rightarrow> (None, db\<lparr>kv_store := supersede_prior k i s'\<rparr>))"

text \<open>
  Modelled from the spec: "\<open>delete(key)\<close>: writes a tombstone record for the key (logical
  delete)" (section 4.3), and a second \<open>delete\<close> "is a no-op" (section 8): with no valid
  record of the key nothing is written. The tombstone is a record of the key with no value
  and the status \<open>deleted\<close>; it supersedes the valid records of the key.
\<close>

definition kv_delete :: "string \<Rightarrow> kvdb \<Rightarrow> fdb_error option \<times> kvdb" where
  "kv_delete k db =
     (if current_records k db = [] then (None, db)
      else
        (let s = kv_store db;
             tombstone = \<lparr>rec_status = Deleted, rec_len = st_header_size s + length k,
                          rec_key = k, rec_value = []\<rparr>
         in case write_record tombstone s of
              (Inl e, s') \<Rightarrow> (Some e, db\<lparr>kv_store := s'\<rparr>)
            | (Inr i, s') \<Rightarrow> (None, db\<lparr>kv_store := supersede_all k s'\<rparr>)))"

text \<open>The operations of the engine as data, to speak of what happens between a \<open>set\<close>
  and a later \<open>get\<close>. An operation that fails still leaves a database behind.\<close>

datatype kv_op = OpSet string "byte list" | OpDelete string | OpGet string

text \<open>The operations that write to a key: \<open>set(k, *)\<close> and \<open>delete(k)\<close>.\<close>

fun writes_key :: "kv_op \<Rightarrow> string \<Rightarrow> bool" where
  "writes_key (OpSet k' v) k = (k' = k)"
| "writes_key (OpDelete k') k = (k' = k)"
| "writes_key (OpGet k') k = False"

fun apply_op :: "kvdb \<Rightarrow> kv_op \<Rightarrow> kvdb" where
  "apply_op db (OpSet k v) = snd (kv_set k v db)"
| "apply_op db (OpDelete k) = snd (kv_delete k db)"
| "apply_op db (OpGet k) = db"

text \<open>The records of a store that satisfy a predicate, as a multiset: what the store holds,
  wherever it holds it.\<close>

definition content :: "('k flash_record \<Rightarrow> bool) \<Rightarrow> 'k store \<Rightarrow> 'k flash_record multiset" where
  "content P s = mset (filter P (all_records s))"

subsection \<open>A store to run the operations on\<close>

text \<open>
  The scenario of the spec's section 8: ten empty sectors of 4096 bytes, here with a
  record header of 9 bytes and one configured default.
\<close>

definition scenario_db :: kvdb where
  "scenario_db =
     \<lparr>kv_store = \<lparr>st_sector_size = 4096, st_header_size = 9,
                   st_sectors = replicate 10 \<lparr>sec_state = Empty, sec_records = []\<rparr>\<rparr>,
      kv_defaults = [(''lang'', [101, 110])]\<rparr>"

section \<open>Properties of the configuration\<close>

lemma sint_FDB_KVDB1_SIZE: "sint FDB_KVDB1_SIZE = 524288"
  by (simp add: FDB_KVDB1_SIZE_def)

lemma sint_FDB_TSDB1_SIZE: "sint FDB_TSDB1_SIZE = 524288"
  by (simp add: FDB_TSDB1_SIZE_def)

lemma sint_FDB_TOTAL_PARTITION_SIZE: "sint FDB_TOTAL_PARTITION_SIZE = 1048576"
  by (simp add: FDB_TOTAL_PARTITION_SIZE_def FDB_KVDB1_SIZE_def FDB_TSDB1_SIZE_def)

text \<open>
  C1. The two partition sizes are 512 * 1024 bytes each (the products do not overflow a
  32-bit int), the total is defined as their sum and that sum does not wrap around, so the
  sizes add up to no more than the region, and the sizing check at initialization does
  not report \<open>ConfigError\<close> for this configuration.
\<close>

theorem partition_sizes_fit_region:
  "sint FDB_KVDB1_SIZE = 512 * 1024
   \<and> sint FDB_TSDB1_SIZE = 512 * 1024
   \<and> FDB_TOTAL_PARTITION_SIZE = FDB_KVDB1_SIZE + FDB_TSDB1_SIZE
   \<and> sint FDB_TOTAL_PARTITION_SIZE = sint FDB_KVDB1_SIZE + sint FDB_TSDB1_SIZE
   \<and> sint FDB_KVDB1_SIZE + sint FDB_TSDB1_SIZE \<le> sint FDB_TOTAL_PARTITION_SIZE
   \<and> check_partition_sizes [FDB_KVDB1_SIZE, FDB_TSDB1_SIZE] FDB_TOTAL_PARTITION_SIZE = None"
proof -
  have total: "FDB_TOTAL_PARTITION_SIZE = FDB_KVDB1_SIZE + FDB_TSDB1_SIZE"
    by (simp add: FDB_TOTAL_PARTITION_SIZE_def)
  have check:
    "check_partition_sizes [FDB_KVDB1_SIZE, FDB_TSDB1_SIZE] FDB_TOTAL_PARTITION_SIZE = None"
    by (simp add: check_partition_sizes_def sint_FDB_KVDB1_SIZE sint_FDB_TSDB1_SIZE
        sint_FDB_TOTAL_PARTITION_SIZE)
  show ?thesis
    using total check
    by (simp add: sint_FDB_KVDB1_SIZE sint_FDB_TSDB1_SIZE sint_FDB_TOTAL_PARTITION_SIZE)
qed

text \<open>
  C2. The write granularity of the deployment, the value every user of the header reads
  from the macro, is exactly 1 bit: the macro's value is the integer 1, and it is the word
  with only the lowest bit set.
\<close>

theorem write_granularity_is_one_bit:
  "sint FDB_WRITE_GRAN = 1 \<and> unat FDB_WRITE_GRAN = 1 \<and> FDB_WRITE_GRAN = 1"
  by (simp add: FDB_WRITE_GRAN_def)

text \<open>With the macro defined, a version mismatch would replace the entries by the defaults.\<close>

lemma kvdb_check_version_auto_update:
  "ns_version ns \<noteq> expected_version \<Longrightarrow>
   kvdb_check_version True expected_version defaults ns
     = \<lparr>ns_version = expected_version, ns_entries = defaults\<rparr>"
  by (simp add: kvdb_check_version_def version_mismatch_policy_def)

text \<open>
  C10. The auto-update macro is not defined, so the policy on a version mismatch is to leave
  the namespace as it is: whatever version is stored and whatever the firmware expects, the
  startup check returns the stored namespace, entries and version marker untouched. (With
  the macro defined, a mismatch would replace the entries by the defaults.)
\<close>

theorem version_mismatch_leaves_kv_data:
  "\<not> FDB_KV_AUTO_UPDATE
   \<and> version_mismatch_policy FDB_KV_AUTO_UPDATE = LeaveAsIs
   \<and> version_mismatch_policy FDB_KV_AUTO_UPDATE \<noteq> WipeAndReinit
   \<and> kvdb_check_version FDB_KV_AUTO_UPDATE expected_version defaults ns = ns
   \<and> ns_entries (kvdb_check_version FDB_KV_AUTO_UPDATE expected_version defaults ns)
       = ns_entries ns
   \<and> ns_version (kvdb_check_version FDB_KV_AUTO_UPDATE expected_version defaults ns)
       = ns_version ns"
  by (simp add: FDB_KV_AUTO_UPDATE_def version_mismatch_policy_def kvdb_check_version_def)

section \<open>Properties of the sector allocator\<close>

subsection \<open>What a store holds is kept by every step of the allocator\<close>

lemma content_sum: "content P s = (\<Sum>sec\<leftarrow>st_sectors s. mset (filter P (sec_records sec)))"
  by (simp add: content_def all_records_def filter_concat mset_concat comp_def)

lemma sum_list_update_mset:
  fixes f :: "'a \<Rightarrow> 'b multiset"
  shows "i < length xs \<Longrightarrow> (\<Sum>x\<leftarrow>xs[i := a]. f x) + f (xs ! i) = (\<Sum>x\<leftarrow>xs. f x) + f a"
proof (induction xs arbitrary: i)
  case Nil
  then show ?case by simp
next
  case (Cons x xs)
  then show ?case by (cases i) (auto simp: ac_simps)
qed

lemma length_set_state [simp]: "length (st_sectors (set_state i st s)) = length (st_sectors s)"
  by (simp add: set_state_def)

lemma length_append_records [simp]:
  "length (st_sectors (append_records i rs s)) = length (st_sectors s)"
  by (simp add: append_records_def)

lemma length_erase_sector [simp]: "length (st_sectors (erase_sector i s)) = length (st_sectors s)"
  by (simp add: erase_sector_def)

lemma length_reclaim [simp]: "length (st_sectors (reclaim v h s)) = length (st_sectors s)"
  by (simp add: reclaim_def)

lemma length_advance_head [simp]:
  "length (st_sectors (advance_head i j s)) = length (st_sectors s)"
  by (simp add: advance_head_def mark_full_def)

lemma content_set_state [simp]: "content P (set_state i st s) = content P s"
proof (cases "i < length (st_sectors s)")
  case True
  have "content P (set_state i st s) + mset (filter P (sec_records (st_sectors s ! i)))
      = content P s + mset (filter P (sec_records (st_sectors s ! i)))"
    using sum_list_update_mset [OF True, of "\<lambda>sec. mset (filter P (sec_records sec))"]
    by (simp add: content_sum set_state_def)
  then show ?thesis by simp
next
  case False
  then show ?thesis by (simp add: content_sum set_state_def not_less list_update_beyond)
qed

lemma content_append_records:
  assumes "i < length (st_sectors s)"
  shows "content P (append_records i rs s) = content P s + mset (filter P rs)"
proof -
  have "content P (append_records i rs s) + mset (filter P (sec_records (st_sectors s ! i)))
      = content P s + mset (filter P rs) + mset (filter P (sec_records (st_sectors s ! i)))"
    using sum_list_update_mset [OF assms, of "\<lambda>sec. mset (filter P (sec_records sec))"]
    by (simp add: content_sum append_records_def ac_simps)
  then show ?thesis by simp
qed

lemma content_erase_sector:
  assumes "v < length (st_sectors s)"
  shows "content P (erase_sector v s) + mset (filter P (sec_records (st_sectors s ! v)))
       = content P s"
  using sum_list_update_mset [OF assms, of "\<lambda>sec. mset (filter P (sec_records sec))"]
  by (simp add: content_sum erase_sector_def)

lemma sector_append_records_other:
  "j \<noteq> i \<Longrightarrow> st_sectors (append_records i rs s) ! j = st_sectors s ! j"
  by (simp add: append_records_def)

lemma sector_set_state_records:
  "sec_records (st_sectors (set_state i st s) ! j) = sec_records (st_sectors s ! j)"
  by (cases "i < length (st_sectors s)"; cases "j = i") (simp_all add: set_state_def not_less list_update_beyond)

lemma content_reclaim:
  assumes v: "v < length (st_sectors s)" and h: "h < length (st_sectors s)" and vh: "v \<noteq> h"
    and P: "\<And>r. P r \<Longrightarrow> live r"
  shows "content P (reclaim v h s) = content P s"
proof -
  let ?moved = "filter live (sec_records (st_sectors s ! v))"
  let ?s1 = "append_records h ?moved s"
  let ?s2 = "set_state v Dirty ?s1"
  have PP: "mset (filter P ?moved) = mset (filter P (sec_records (st_sectors s ! v)))"
    using P by (auto intro!: filter_mset_cong)
  have recs: "sec_records (st_sectors ?s2 ! v) = sec_records (st_sectors s ! v)"
    using vh by (simp add: sector_set_state_records sector_append_records_other)
  have "content P (erase_sector v ?s2) + mset (filter P (sec_records (st_sectors ?s2 ! v)))
      = content P ?s2"
    using v by (intro content_erase_sector) simp
  also have "\<dots> = content P s + mset (filter P ?moved)"
    using h by (simp add: content_append_records)
  finally have "content P (erase_sector v ?s2) + mset (filter P (sec_records (st_sectors s ! v)))
      = content P s + mset (filter P (sec_records (st_sectors s ! v)))"
    unfolding recs PP .
  then show ?thesis
    by (simp add: reclaim_def)
qed

subsection \<open>The sector that garbage collection picks, and the write head\<close>

lemma select_victim_mem:
  "select_victim f xs best = Some v \<Longrightarrow> v \<in> set xs \<or> best = Some v"
  by (induction xs arbitrary: best) (fastforce split: option.splits if_splits)+

lemma sectors_in_state_iff:
  "i \<in> set (sectors_in_state st s) \<longleftrightarrow> i < length (st_sectors s) \<and> sec_state (st_sectors s ! i) = st"
  by (auto simp: sectors_in_state_def)

lemma gc_select_Full:
  assumes "gc_select s = Some v"
  shows "v < length (st_sectors s) \<and> sec_state (st_sectors s ! v) = Full"
proof -
  have "v \<in> set (sectors_in_state Full s)"
    using assms select_victim_mem [of _ "sectors_in_state Full s" None v]
    by (simp add: gc_select_def)
  then show ?thesis by (simp add: sectors_in_state_iff)
qed

lemma current_write_head_Some:
  assumes "current_write_head s = Some (i, c)"
  shows "i < length (st_sectors s) \<and> sec_state (st_sectors s ! i) = Using
     \<and> c = write_cursor (st_sectors s ! i)"
proof -
  from assms obtain rest where "sectors_in_state Using s = i # rest"
    and c: "c = write_cursor (st_sectors s ! i)"
    by (auto simp: current_write_head_def split: list.splits)
  then have "i \<in> set (sectors_in_state Using s)" by simp
  with c show ?thesis by (simp add: sectors_in_state_iff)
qed

lemma find_SomeD: "find P xs = Some x \<Longrightarrow> P x \<and> x \<in> set xs"
  by (induction xs) (auto split: if_splits)

lemma next_empty_range:
  "j \<in> set ([Suc i..<n] @ [0..<min (Suc i) n]) \<Longrightarrow> j < n"
  by (simp only: set_append set_upt Un_iff atLeastLessThan_iff min_less_iff_conj) linarith

lemma next_empty_Some:
  assumes "next_empty i s = Some j"
  shows "j < length (st_sectors s) \<and> sec_state (st_sectors s ! j) = Empty"
proof -
  from find_SomeD [OF assms [unfolded next_empty_def]]
  have P: "sec_state (st_sectors s ! j) = Empty"
    and mem: "j \<in> set ([Suc i..<length (st_sectors s)] @ [0..<min (Suc i) (length (st_sectors s))])"
    by blast+
  from next_empty_range [OF mem] P show ?thesis by simp
qed

subsection \<open>Allocation\<close>

lemma garbage_collect_Some:
  assumes "garbage_collect h s = Some s'"
  shows "\<exists>v. gc_select s = Some v \<and> s' = reclaim v h s
           \<and> fits (st_sector_size s) (st_sectors s ! h) (live_bytes (st_sectors s ! v))"
  using assms by (auto simp: garbage_collect_def split: option.splits if_splits)

lemma content_advance_head [simp]: "content P (advance_head i j s) = content P s"
  by (simp add: advance_head_def mark_full_def)

lemma enter_sector_snd [simp]: "snd (enter_sector j n s) = s"
  by (simp add: enter_sector_def)

lemma enter_sector_Inr: "enter_sector j n s = (Inr i, s') \<Longrightarrow> i = j \<and> s' = s"
  by (auto simp: enter_sector_def split: if_splits)

lemma enter_sector_Inl: "enter_sector j n s = (Inl e, s') \<Longrightarrow> e = NoSpace \<and> s' = s"
  by (auto simp: enter_sector_def split: if_splits)

lemma allocate_content:
  assumes P: "\<And>r. P r \<Longrightarrow> live r"
  shows "content P (snd (allocate n s)) = content P s"
proof (cases "current_write_head s")
  case None
  then show ?thesis
    by (simp add: allocate_def split: list.splits)
next
  case (Some hc)
  obtain i c where hc: "hc = (i, c)" by (cases hc)
  from current_write_head_Some [OF Some [unfolded hc]]
  have i: "i < length (st_sectors s)" and inuse: "sec_state (st_sectors s ! i) = Using" by auto
  show ?thesis
  proof (cases "fits (st_sector_size s) (st_sectors s ! i) n")
    case True
    with Some hc show ?thesis by (simp add: allocate_def)
  next
    case nofit: False
    show ?thesis
    proof (cases "next_empty i s")
      case (Some j)
      with nofit \<open>current_write_head s = Some hc\<close> hc show ?thesis
        by (simp add: allocate_def)
    next
      case None
      show ?thesis
      proof (cases "garbage_collect i s")
        case gcNone: None
        with None nofit \<open>current_write_head s = Some hc\<close> hc show ?thesis
          by (simp add: allocate_def)
      next
        case (Some s')
        from garbage_collect_Some [OF Some] obtain v where
          sel: "gc_select s = Some v" and s': "s' = reclaim v i s" by blast
        from gc_select_Full [OF sel] have v: "v < length (st_sectors s)"
          and full: "sec_state (st_sectors s ! v) = Full" by auto
        from full inuse have "v \<noteq> i" by auto
        then have c: "content P s' = content P s"
          unfolding s' using content_reclaim [OF v i _ P] by blast
        from Some None nofit \<open>current_write_head s = Some hc\<close> hc c show ?thesis
          by (simp add: allocate_def split: option.splits)
      qed
    qed
  qed
qed

lemma sectors_in_state_hd:
  "sectors_in_state st s = j # rest \<Longrightarrow> j < length (st_sectors s)"
  using sectors_in_state_iff [of j st s] by simp

lemma allocate_result:
  assumes "allocate n s = (res, s')"
  shows "length (st_sectors s') = length (st_sectors s)
       \<and> (case res of Inl e \<Rightarrow> e = NoSpace | Inr i \<Rightarrow> i < length (st_sectors s))"
proof (cases "current_write_head s")
  case None
  show ?thesis
  proof (cases "sectors_in_state Empty s")
    case Nil
    with None assms show ?thesis by (auto simp: allocate_def)
  next
    case (Cons j rest)
    from sectors_in_state_hd [OF Cons] have j: "j < length (st_sectors s)" .
    from None Cons assms have "enter_sector j n (set_state j Using s) = (res, s')"
      by (simp add: allocate_def)
    with j show ?thesis
      by (cases res) (auto dest: enter_sector_Inl enter_sector_Inr)
  qed
next
  case (Some hc)
  obtain i c where hc: "hc = (i, c)" by (cases hc)
  from current_write_head_Some [OF Some [unfolded hc]]
  have i: "i < length (st_sectors s)" by auto
  show ?thesis
  proof (cases "fits (st_sector_size s) (st_sectors s ! i) n")
    case True
    with Some hc assms i show ?thesis by (auto simp: allocate_def)
  next
    case nofit: False
    show ?thesis
    proof (cases "next_empty i s")
      case (Some j)
      from next_empty_Some [OF Some] have j: "j < length (st_sectors s)" by simp
      from Some nofit \<open>current_write_head s = Some hc\<close> hc assms
      have "enter_sector j n (advance_head i j s) = (res, s')"
        by (simp add: allocate_def)
      with j show ?thesis
        by (cases res) (auto dest: enter_sector_Inl enter_sector_Inr)
    next
      case None
      show ?thesis
      proof (cases "garbage_collect i s")
        case gcNone: None
        with None nofit \<open>current_write_head s = Some hc\<close> hc assms show ?thesis
          by (auto simp: allocate_def)
      next
        case (Some s1)
        from garbage_collect_Some [OF Some] obtain v where s1: "s1 = reclaim v i s" by blast
        have len: "length (st_sectors s1) = length (st_sectors s)" by (simp add: s1)
        show ?thesis
        proof (cases "next_empty i s1")
          case neNone: None
          with Some None nofit \<open>current_write_head s = Some hc\<close> hc assms len show ?thesis
            by (auto simp: allocate_def)
        next
          case (Some j)
          from next_empty_Some [OF Some] len have j: "j < length (st_sectors s)" by simp
          from Some \<open>garbage_collect i s = Some s1\<close> None nofit
            \<open>current_write_head s = Some hc\<close> hc assms
          have "enter_sector j n (advance_head i j s1) = (res, s')"
            by (simp add: allocate_def)
          with j len show ?thesis
            by (cases res) (auto dest: enter_sector_Inl enter_sector_Inr)
        qed
      qed
    qed
  qed
qed

lemma write_record_content:
  assumes P: "\<And>x. P x \<Longrightarrow> live x" and w: "write_record r s = (res, s')"
  shows "content P s' = content P s + (case res of Inl e \<Rightarrow> {#} | Inr i \<Rightarrow> mset (filter P [r]))"
proof -
  obtain ares s1 where a: "allocate (rec_len r) s = (ares, s1)" by (cases "allocate (rec_len r) s")
  from allocate_content [of P "rec_len r" s] P a have c1: "content P s1 = content P s" by simp
  from allocate_result [OF a] have len: "length (st_sectors s1) = length (st_sectors s)"
    and idx: "case ares of Inl e \<Rightarrow> e = NoSpace | Inr i \<Rightarrow> i < length (st_sectors s)" by auto
  show ?thesis
  proof (cases ares)
    case (Inl e)
    with a w c1 show ?thesis by (auto simp: write_record_def)
  next
    case (Inr i)
    with idx len have "i < length (st_sectors s1)" by simp
    from content_append_records [OF this, of P "[r]"] c1 Inr a w show ?thesis
      by (auto simp: write_record_def)
  qed
qed

section \<open>Properties of the key-value engine\<close>

lemma content_current_records:
  "mset (current_records k db) = content (\<lambda>r. rec_key r = k \<and> live r) (kv_store db)"
  by (simp add: current_records_def content_def)

lemma filter_supersede_same:
  "filter (\<lambda>r. rec_key r = k \<and> live r) (supersede k rs) = []"
  by (induction rs) (simp_all add: supersede_def live_def)

lemma filter_supersede_other:
  "k' \<noteq> k \<Longrightarrow>
   filter (\<lambda>r. rec_key r = k \<and> live r) (supersede k' rs) = filter (\<lambda>r. rec_key r = k \<and> live r) rs"
  by (induction rs) (simp_all add: supersede_def live_def)

lemma records_supersede_older:
  "sec_records (supersede_older k sec) =
     (case rev (sec_records sec) of [] \<Rightarrow> [] | newest # older \<Rightarrow> supersede k (rev older) @ [newest])"
  by (simp add: supersede_older_def split: list.splits)

lemma filter_supersede_older_other:
  assumes "k' \<noteq> k"
  shows "filter (\<lambda>r. rec_key r = k \<and> live r) (sec_records (supersede_older k' sec))
       = filter (\<lambda>r. rec_key r = k \<and> live r) (sec_records sec)"
proof (cases "rev (sec_records sec)")
  case Nil
  then show ?thesis by (simp add: records_supersede_older)
next
  case (Cons newest older)
  then have "sec_records sec = rev older @ [newest]"
    by (metis rev.simps(2) rev_rev_ident)
  with Cons assms show ?thesis
    by (simp add: records_supersede_older filter_supersede_other)
qed

lemma content_supersede_all_other:
  assumes "k' \<noteq> k"
  shows "content (\<lambda>r. rec_key r = k \<and> live r) (supersede_all k' s)
       = content (\<lambda>r. rec_key r = k \<and> live r) s"
proof -
  have "filter (\<lambda>r. rec_key r = k \<and> live r) (all_records (supersede_all k' s))
      = filter (\<lambda>r. rec_key r = k \<and> live r) (all_records s)"
    using assms
    by (simp add: all_records_def supersede_all_def supersede_sector_def filter_concat comp_def
        filter_supersede_other)
  then show ?thesis by (simp only: content_def)
qed

lemma content_supersede_all_same:
  "content (\<lambda>r. rec_key r = k \<and> live r) (supersede_all k s) = {#}"
proof -
  have "filter (\<lambda>r. rec_key r = k \<and> live r) (all_records (supersede_all k s)) = []"
    by (simp add: all_records_def supersede_all_def supersede_sector_def filter_concat comp_def
        filter_supersede_same)
  then show ?thesis by (simp only: content_def mset.simps)
qed

lemma supersede_prior_sectors:
  "map (\<lambda>sec. filter (\<lambda>r. rec_key r = k \<and> live r) (sec_records sec))
       (st_sectors (supersede_prior k' i s))
   = (map (\<lambda>sec. filter (\<lambda>r. rec_key r = k \<and> live r) (supersede k' (sec_records sec)))
       (st_sectors s))
       [i := filter (\<lambda>r. rec_key r = k \<and> live r) (sec_records (supersede_older k' (st_sectors s ! i)))]"
  by (simp add: supersede_prior_def map_update supersede_sector_def comp_def)

lemma content_supersede_prior_other:
  assumes "k' \<noteq> k"
  shows "content (\<lambda>r. rec_key r = k \<and> live r) (supersede_prior k' i s)
       = content (\<lambda>r. rec_key r = k \<and> live r) s"
proof -
  let ?P = "\<lambda>r. rec_key r = k \<and> live r"
  have "map (\<lambda>sec. filter ?P (sec_records sec)) (st_sectors (supersede_prior k' i s))
      = (map (\<lambda>sec. filter ?P (sec_records sec)) (st_sectors s))
          [i := filter ?P (sec_records (st_sectors s ! i))]"
    using assms
    by (simp add: supersede_prior_sectors filter_supersede_other filter_supersede_older_other)
  also have "\<dots> = map (\<lambda>sec. filter ?P (sec_records sec)) (st_sectors s)"
    by (cases "i < length (st_sectors s)") (simp_all add: list_update_same_conv not_less list_update_beyond)
  finally have "filter ?P (all_records (supersede_prior k' i s)) = filter ?P (all_records s)"
    by (simp add: all_records_def filter_concat comp_def)
  then show ?thesis by (simp only: content_def)
qed

lemma content_supersede_prior_same:
  assumes i: "i < length (st_sectors s)"
    and new: "sec_records (st_sectors s ! i) = older @ [r]"
    and r: "rec_key r = k" "live r"
  shows "filter (\<lambda>r. rec_key r = k \<and> live r) (all_records (supersede_prior k i s)) = [r]"
proof -
  let ?P = "\<lambda>r. rec_key r = k \<and> live r"
  let ?n = "length (st_sectors s)"
  have "map (\<lambda>sec. filter ?P (sec_records sec)) (st_sectors (supersede_prior k i s))
      = (map (\<lambda>sec. []) (st_sectors s))[i := [r]]"
    using new r
    by (simp add: supersede_prior_sectors filter_supersede_same records_supersede_older)
  also have "\<dots> = (replicate ?n [])[i := [r]]"
    by (simp add: map_replicate_const)
  finally have "filter ?P (all_records (supersede_prior k i s)) = concat ((replicate ?n [])[i := [r]])"
    by (simp add: all_records_def filter_concat comp_def)
  also have "\<dots> = [r]"
    using i by (simp add: upd_conv_take_nth_drop)
  finally show ?thesis .
qed

lemma write_record_Inr:
  assumes "write_record r s = (Inr i, s')"
  shows "i < length (st_sectors s') \<and> (\<exists>older. sec_records (st_sectors s' ! i) = older @ [r])"
proof -
  obtain ares s1 where a: "allocate (rec_len r) s = (ares, s1)" by (cases "allocate (rec_len r) s")
  with assms have ares: "ares = Inr i" and s': "s' = append_records i [r] s1"
    by (cases ares; simp add: write_record_def)+
  from allocate_result [OF a] ares have "i < length (st_sectors s1)" by simp
  then show ?thesis by (simp add: s' append_records_def)
qed

lemma kv_set_current:
  assumes "kv_set k v db = (None, db1)"
  shows "\<exists>r. current_records k db1 = [r] \<and> rec_value r = v"
proof -
  let ?s = "kv_store db"
  let ?r = "\<lparr>rec_status = WriteOk, rec_len = st_header_size ?s + length k + length v,
             rec_key = k, rec_value = v\<rparr>"
  obtain res s' where w: "write_record ?r ?s = (res, s')" by (cases "write_record ?r ?s")
  with assms obtain i where res: "res = Inr i" and db1: "db1 = db\<lparr>kv_store := supersede_prior k i s'\<rparr>"
    by (cases res) (auto simp: kv_set_def Let_def)
  from write_record_Inr [OF w [unfolded res]] obtain older where
    i: "i < length (st_sectors s')" and new: "sec_records (st_sectors s' ! i) = older @ [?r]"
    by blast
  have "current_records k db1 = [?r]"
    unfolding current_records_def db1
    using content_supersede_prior_same [OF i new] by (simp add: live_def)
  then show ?thesis by simp
qed

lemma kv_set_other:
  assumes "k' \<noteq> k"
  shows "mset (current_records k (snd (kv_set k' v db))) = mset (current_records k db)"
proof -
  let ?P = "\<lambda>r. rec_key r = k \<and> live r"
  let ?s = "kv_store db"
  let ?r = "\<lparr>rec_status = WriteOk, rec_len = st_header_size ?s + length k' + length v,
             rec_key = k', rec_value = v\<rparr>"
  obtain res s' where w: "write_record ?r ?s = (res, s')" by (cases "write_record ?r ?s")
  have c: "content ?P s' = content ?P ?s"
    using write_record_content [of ?P, OF _ w] assms by (cases res) auto
  show ?thesis
  proof (cases res)
    case (Inl e)
    with w c show ?thesis by (simp add: kv_set_def Let_def content_current_records)
  next
    case (Inr i)
    with w c assms show ?thesis
      by (simp add: kv_set_def Let_def content_current_records content_supersede_prior_other)
  qed
qed

lemma kv_delete_other:
  assumes "k' \<noteq> k"
  shows "mset (current_records k (snd (kv_delete k' db))) = mset (current_records k db)"
proof (cases "current_records k' db = []")
  case True
  then show ?thesis by (simp add: kv_delete_def)
next
  case False
  let ?P = "\<lambda>r. rec_key r = k \<and> live r"
  let ?s = "kv_store db"
  let ?r = "\<lparr>rec_status = Deleted, rec_len = st_header_size ?s + length k',
             rec_key = k', rec_value = []\<rparr>"
  obtain res s' where w: "write_record ?r ?s = (res, s')" by (cases "write_record ?r ?s")
  have c: "content ?P s' = content ?P ?s"
    using write_record_content [of ?P, OF _ w] assms by (cases res) auto
  show ?thesis
  proof (cases res)
    case (Inl e)
    with w c False show ?thesis by (simp add: kv_delete_def Let_def content_current_records)
  next
    case (Inr i)
    with w c assms False show ?thesis
      by (simp add: kv_delete_def Let_def content_current_records content_supersede_all_other)
  qed
qed

lemma apply_op_other:
  assumes "\<not> writes_key opr k"
  shows "mset (current_records k (apply_op db opr)) = mset (current_records k db)"
  using assms by (cases opr) (simp_all add: kv_set_other kv_delete_other)

lemma apply_ops_other:
  assumes "\<forall>opr\<in>set ops. \<not> writes_key opr k"
  shows "mset (current_records k (foldl apply_op db ops)) = mset (current_records k db)"
  using assms by (induction ops arbitrary: db) (simp_all add: apply_op_other)

lemma mset_singleton_list: "mset xs = {#x#} \<Longrightarrow> xs = [x]"
  by (cases xs) (auto split: if_splits)

text \<open>
  The scenario of the spec's section 8 on the model: key \<open>cfg\<close> set to \<open>v1\<close>, then to \<open>v2\<close>,
  then deleted.
\<close>

lemma scenario_cfg:
  "kv_get ''cfg'' (foldl apply_op scenario_db [OpSet ''cfg'' [118, 49]]) = Inr [118, 49]
   \<and> kv_get ''cfg'' (foldl apply_op scenario_db [OpSet ''cfg'' [118, 49], OpSet ''cfg'' [118, 50]])
       = Inr [118, 50]
   \<and> kv_get ''cfg'' (foldl apply_op scenario_db
         [OpSet ''cfg'' [118, 49], OpSet ''cfg'' [118, 50], OpDelete ''cfg'']) = Inl NotFound"
  by code_simp

text \<open>
  C5. After a successful \<open>set\<close> of key \<open>k\<close> to value \<open>v\<close>, and after any operations
  that are neither a \<open>set\<close> nor a \<open>delete\<close> of \<open>k\<close> (sets and deletes of other keys,
  successful or not, with whatever garbage collection they trigger, and gets of any key),
  \<open>get\<close> of \<open>k\<close> returns \<open>v\<close>. And when the store holds no valid record of a
  key, \<open>get\<close> returns the default configured for the key if there is one, and \<open>NotFound\<close>
  otherwise.
\<close>

theorem kv_get_after_set:
  "(kv_set k v db = (None, db1) \<longrightarrow> (\<forall>opr\<in>set ops. \<not> writes_key opr k) \<longrightarrow>
      kv_get k (foldl apply_op db1 ops) = Inr v)
   \<and> (current_records k' db' = [] \<longrightarrow>
        kv_get k' db' =
          (case map_of (kv_defaults db') k' of Some d \<Rightarrow> Inr d | None \<Rightarrow> Inl NotFound))"
proof (intro conjI impI)
  assume set: "kv_set k v db = (None, db1)" and others: "\<forall>opr\<in>set ops. \<not> writes_key opr k"
  from kv_set_current [OF set] obtain r where
    r: "current_records k db1 = [r]" and v: "rec_value r = v" by blast
  have "mset (current_records k (foldl apply_op db1 ops)) = {#r#}"
    using apply_ops_other [OF others, of db1] r by simp
  then have "current_records k (foldl apply_op db1 ops) = [r]"
    by (rule mset_singleton_list)
  with v show "kv_get k (foldl apply_op db1 ops) = Inr v"
    by (simp add: kv_get_def)
next
  assume "current_records k' db' = []"
  then show "kv_get k' db' =
      (case map_of (kv_defaults db') k' of Some d \<Rightarrow> Inr d | None \<Rightarrow> Inl NotFound)"
    by (simp add: kv_get_def)
qed

theorem kv_get_after_set_witness:
  "fst (kv_set ''cfg'' [118, 49] scenario_db) = None
   \<and> kv_get ''cfg''
        (foldl apply_op (snd (kv_set ''cfg'' [118, 49] scenario_db))
           [OpSet ''ssid'' [1, 2, 3], OpDelete ''ssid'', OpGet ''cfg''])
       = Inr [118, 49]
   \<and> current_records ''lang'' scenario_db = []
   \<and> kv_get ''lang'' scenario_db = Inr [101, 110]
   \<and> current_records ''ssid'' scenario_db = []
   \<and> kv_get ''ssid'' scenario_db = Inl NotFound"
proof -
  let ?ops = "[OpSet ''ssid'' [1, 2, 3], OpDelete ''ssid'', OpGet ''cfg'']"
  let ?db1 = "snd (kv_set ''cfg'' [118, 49] scenario_db)"
  have ok: "fst (kv_set ''cfg'' [118, 49] scenario_db) = None"
    by code_simp
  then have set: "kv_set ''cfg'' [118, 49] scenario_db = (None, ?db1)"
    by (simp add: prod_eq_iff)
  have others: "\<forall>opr\<in>set ?ops. \<not> writes_key opr ''cfg''"
    by simp
  have none_lang: "current_records ''lang'' scenario_db = []"
    by code_simp
  have none_ssid: "current_records ''ssid'' scenario_db = []"
    by code_simp
  have lang: "map_of (kv_defaults scenario_db) ''lang'' = Some [101, 110]"
    by (simp add: scenario_db_def)
  have ssid: "map_of (kv_defaults scenario_db) ''ssid'' = None"
    by (simp add: scenario_db_def)
  from kv_get_after_set [of "''cfg''" "[118, 49]" scenario_db ?db1 ?ops] set others
  have get: "kv_get ''cfg'' (foldl apply_op ?db1 ?ops) = Inr [118, 49]"
    by blast
  from kv_get_after_set [of _ _ _ _ "[]" "''lang''" scenario_db] none_lang lang
  have get_lang: "kv_get ''lang'' scenario_db = Inr [101, 110]"
    by simp
  from kv_get_after_set [of _ _ _ _ "[]" "''ssid''" scenario_db] none_ssid ssid
  have get_ssid: "kv_get ''ssid'' scenario_db = Inl NotFound"
    by simp
  from ok get none_lang get_lang none_ssid get_ssid show ?thesis
    by (intro conjI)
qed

end
